theory Spec2Isabelle
  imports Main "HOL-Library.Word"
begin

section \<open>The collaboration server of Backend/index.js\<close>

text \<open>
  The server keeps three pieces of process-wide state (\<open>sharedDocumentContent\<close>,
  \<open>activeUsersMap\<close>, \<open>lineEdits\<close>) and reacts to four WebSocket events
  (\<open>connection\<close>, \<open>message\<close>, \<open>close\<close>, \<open>error\<close>). Each handler is modelled
  as a function from the state before to the state after, together with the list of
  \<open>send\<close> calls it makes, in the order the source makes them.
\<close>

subsection \<open>Strings\<close>

text \<open>
  A JavaScript string is a sequence of 16-bit code units; \<open>===\<close> on strings is equality of
  these sequences.
\<close>

type_synonym js_string = "16 word list"

text \<open>
  \<open>String.prototype.trim\<close> removes leading and trailing code units that are WhiteSpace or
  LineTerminator in ECMAScript: TAB, VT, FF, SP, NBSP, ZWNBSP, the Unicode space separators,
  and LF, CR, LS, PS.
\<close>

definition isWhiteSpace :: "16 word \<Rightarrow> bool" where
  "isWhiteSpace c \<longleftrightarrow>
     c = 0x0009 \<or> c = 0x000B \<or> c = 0x000C \<or> c = 0x0020 \<or> c = 0x00A0 \<or> c = 0xFEFF \<or>
     c = 0x1680 \<or> (0x2000 \<le> c \<and> c \<le> 0x200A) \<or> c = 0x202F \<or> c = 0x205F \<or> c = 0x3000"

definition isLineTerminator :: "16 word \<Rightarrow> bool" where
  "isLineTerminator c \<longleftrightarrow> c = 0x000A \<or> c = 0x000D \<or> c = 0x2028 \<or> c = 0x2029"

definition isTrimmed :: "16 word \<Rightarrow> bool" where
  "isTrimmed c \<longleftrightarrow> isWhiteSpace c \<or> isLineTerminator c"

definition trim :: "js_string \<Rightarrow> js_string" where
  "trim str = rev (dropWhile isTrimmed (rev (dropWhile isTrimmed str)))"

subsection \<open>Data\<close>

text \<open>A connection is the \<open>ws\<close> object of the source; only its identity matters.\<close>

type_synonym conn = nat

datatype readyState = CONNECTING | OPEN | CLOSING | CLOSED

text \<open>
  \<open>wss.clients\<close> belongs to the WebSocket library, not to this program: every handler
  receives the clients, each with its \<open>readyState\<close>, as they are when the handler runs.
\<close>

type_synonym clients = "(conn \<times> readyState) list"

text \<open>The user object \<open>{ id, color }\<close> stored in \<open>activeUsersMap\<close>.\<close>

record user =
  user_id :: js_string
  user_color :: js_string

text \<open>The object \<open>{ userId, color }\<close> stored in \<open>lineEdits\<close>.\<close>

record attribution =
  userId :: js_string
  color :: js_string

text \<open>
  \<open>lineEdits\<close> is a plain object indexed by the elements of \<open>changedLines\<close>. The protocol
  makes these integers; two integers are the same property key exactly when they are equal,
  so the object is a map from \<open>int\<close>.
\<close>

record state =
  sharedDocumentContent :: js_string
  activeUsersMap :: "(conn \<times> user) list"
  lineEdits :: "int \<rightharpoonup> attribution"

definition init :: state where
  "init = \<lparr>sharedDocumentContent = [], activeUsersMap = [], lineEdits = Map.empty\<rparr>"

subsection \<open>The JavaScript Map\<close>

text \<open>
  A \<open>Map\<close> keeps its entries in insertion order; \<open>set\<close> on a key that is present replaces
  the value where it stands, and appends otherwise.
\<close>

primrec Map_set :: "'k \<Rightarrow> 'v \<Rightarrow> ('k \<times> 'v) list \<Rightarrow> ('k \<times> 'v) list" where
  "Map_set k v [] = [(k, v)]"
| "Map_set k v (e # es) = (if fst e = k then (k, v) # es else e # Map_set k v es)"

primrec Map_has :: "'k \<Rightarrow> ('k \<times> 'v) list \<Rightarrow> bool" where
  "Map_has k [] = False"
| "Map_has k (e # es) = (fst e = k \<or> Map_has k es)"

primrec Map_delete :: "'k \<Rightarrow> ('k \<times> 'v) list \<Rightarrow> ('k \<times> 'v) list" where
  "Map_delete k [] = []"
| "Map_delete k (e # es) = (if fst e = k then Map_delete k es else e # Map_delete k es)"

definition Map_values :: "('k \<times> 'v) list \<Rightarrow> 'v list" where
  "Map_values es = map snd es"

subsection \<open>Messages\<close>

text \<open>
  What \<open>JSON.parse\<close> makes of an incoming message: it throws on text that is not JSON, and
  otherwise the handler switches on \<open>parsed.type\<close>. The fields have the types of the
  protocol: \<open>username\<close>, \<open>content\<close> and \<open>userId\<close> are strings, \<open>changedLines\<close> is an array of
  integers. \<open>Other\<close> is any type the switch does not name. A message whose fields have
  other types (on which the handler can throw a \<open>TypeError\<close>) is not a value of these types.
\<close>

datatype parsed =
    CheckUsername js_string
  | Edit js_string "int list" js_string
  | Other

datatype message = Unparseable | Parsed parsed

datatype server_message =
    UsernameRejected
  | UsernameAccepted js_string
  | DocumentUpdate js_string
  | UserListUpdate "user list"
  | LineAttributionUpdate "int \<rightharpoonup> attribution"

type_synonym sends = "(conn \<times> server_message) list"

datatype error = SyntaxError

subsection \<open>Colours\<close>

definition colors :: "js_string list" where
  "colors =
    [[0x23, 0x45, 0x46, 0x34, 0x34, 0x34, 0x34],
     [0x23, 0x46, 0x39, 0x37, 0x33, 0x31, 0x36],
     [0x23, 0x45, 0x41, 0x42, 0x33, 0x30, 0x38],
     [0x23, 0x32, 0x32, 0x43, 0x35, 0x35, 0x45],
     [0x23, 0x30, 0x45, 0x41, 0x35, 0x45, 0x39],
     [0x23, 0x36, 0x33, 0x36, 0x36, 0x46, 0x31],
     [0x23, 0x45, 0x43, 0x34, 0x38, 0x39, 0x39]]"

text \<open>
  \<open>Math.floor(Math.random() * colors.length)\<close> is some index below \<open>colors.length\<close>. The
  draw is an input of the model, reduced into that range.
\<close>

definition getRandomColor :: "nat \<Rightarrow> js_string" where
  "getRandomColor draw = colors ! (draw mod length colors)"

subsection \<open>Broadcasts\<close>

text \<open>The loop \<open>wss.clients.forEach\<close> with its \<open>readyState === WebSocket.OPEN\<close> test.\<close>

definition broadcast :: "clients \<Rightarrow> server_message \<Rightarrow> sends" where
  "broadcast wss m = map (\<lambda>client. (fst client, m)) (filter (\<lambda>client. snd client = OPEN) wss)"

definition broadcastUserList :: "clients \<Rightarrow> state \<Rightarrow> sends" where
  "broadcastUserList wss s = broadcast wss (UserListUpdate (Map_values (activeUsersMap s)))"

definition broadcastLineAttribution :: "clients \<Rightarrow> state \<Rightarrow> sends" where
  "broadcastLineAttribution wss s = broadcast wss (LineAttributionUpdate (lineEdits s))"

subsection \<open>Handlers\<close>

definition on_connection :: "clients \<Rightarrow> state \<Rightarrow> conn \<Rightarrow> sends" where
  "on_connection wss s ws =
     (ws, DocumentUpdate (sharedDocumentContent s))
       # broadcastUserList wss s @ broadcastLineAttribution wss s"

definition checkUsername :: "clients \<Rightarrow> state \<Rightarrow> conn \<Rightarrow> js_string \<Rightarrow> nat \<Rightarrow> state \<times> sends" where
  "checkUsername wss s ws username draw =
     (let desired = trim username;
          isTaken = list_ex (\<lambda>u. user_id u = desired) (Map_values (activeUsersMap s))
      in if desired = [] \<or> isTaken then (s, [(ws, UsernameRejected)])
         else
           let u = \<lparr>user_id = desired, user_color = getRandomColor draw\<rparr>;
               s' = s\<lparr>activeUsersMap := Map_set ws u (activeUsersMap s)\<rparr>
           in (s', (ws, UsernameAccepted desired)
                     # broadcastUserList wss s' @ broadcastLineAttribution wss s'))"

text \<open>One round of \<open>changedLines.forEach\<close>.\<close>

definition attribute_line :: "js_string \<Rightarrow> state \<Rightarrow> int \<Rightarrow> state" where
  "attribute_line uid s lineNum =
     (case find (\<lambda>u. user_id u = uid) (Map_values (activeUsersMap s)) of
        None \<Rightarrow> s
      | Some u \<Rightarrow>
          s\<lparr>lineEdits := (lineEdits s)(lineNum \<mapsto> \<lparr>userId = user_id u, color = user_color u\<rparr>)\<rparr>)"

definition edit :: "clients \<Rightarrow> state \<Rightarrow> js_string \<Rightarrow> int list \<Rightarrow> js_string \<Rightarrow> state \<times> sends" where
  "edit wss s content changedLines uid =
     (let s1 = s\<lparr>sharedDocumentContent := content\<rparr>;
          s2 = foldl (attribute_line uid) s1 changedLines
      in (s2, broadcast wss (DocumentUpdate (sharedDocumentContent s2))
                @ broadcastLineAttribution wss s2))"

definition on_message ::
  "clients \<Rightarrow> state \<Rightarrow> conn \<Rightarrow> message \<Rightarrow> nat \<Rightarrow> error + state \<times> sends" where
  "on_message wss s ws msg draw =
     (case msg of
        Unparseable \<Rightarrow> Inl SyntaxError
      | Parsed (CheckUsername username) \<Rightarrow> Inr (checkUsername wss s ws username draw)
      | Parsed (Edit content changedLines uid) \<Rightarrow> Inr (edit wss s content changedLines uid)
      | Parsed Other \<Rightarrow> Inr (s, []))"

definition on_close :: "clients \<Rightarrow> state \<Rightarrow> conn \<Rightarrow> state \<times> sends" where
  "on_close wss s ws =
     (if Map_has ws (activeUsersMap s)
      then let s' = s\<lparr>activeUsersMap := Map_delete ws (activeUsersMap s)\<rparr>
           in (s', broadcastUserList wss s')
      else (s, []))"

subsection \<open>The server as a whole\<close>

datatype event =
    Connection clients conn
  | Message clients conn message nat
  | Close clients conn
  | Error conn

definition handle :: "state \<Rightarrow> event \<Rightarrow> error + state \<times> sends" where
  "handle s e =
     (case e of
        Connection wss ws \<Rightarrow> Inr (s, on_connection wss s ws)
      | Message wss ws msg draw \<Rightarrow> on_message wss s ws msg draw
      | Close wss ws \<Rightarrow> Inr (on_close wss s ws)
      | Error ws \<Rightarrow> Inr (s, []))"

text \<open>
  Events are handled one after the other. No handler catches an exception, so the first
  one thrown ends the run.
\<close>

fun run :: "state \<Rightarrow> event list \<Rightarrow> error + state \<times> sends" where
  "run s [] = Inr (s, [])"
| "run s (e # es) =
     (case handle s e of
        Inl err \<Rightarrow> Inl err
      | Inr (s', out) \<Rightarrow>
          (case run s' es of
             Inl err \<Rightarrow> Inl err
           | Inr (s'', out') \<Rightarrow> Inr (s'', out @ out')))"

subsection \<open>Notions used to state the properties\<close>

text \<open>The identities held by the registered participants, in the order of the map.\<close>

definition user_ids :: "state \<Rightarrow> js_string list" where
  "user_ids s = map user_id (Map_values (activeUsersMap s))"

text \<open>
  The registry invariant: one entry per connection, one connection per identity, and every
  identity is a non-empty string that \<open>trim\<close> leaves as it is.
\<close>

definition registry_ok :: "state \<Rightarrow> bool" where
  "registry_ok s \<longleftrightarrow>
     distinct (map fst (activeUsersMap s)) \<and> distinct (user_ids s) \<and>
     list_all (\<lambda>n. n \<noteq> [] \<and> trim n = n) (user_ids s)"

text \<open>The state a run ends in, when no handler throws.\<close>

definition final_state :: "state \<Rightarrow> event list \<Rightarrow> state option" where
  "final_state s es = (case run s es of Inl err \<Rightarrow> None | Inr r \<Rightarrow> Some (fst r))"

text \<open>The messages a run sends, when no handler throws.\<close>

definition sends_of :: "state \<Rightarrow> event list \<Rightarrow> sends" where
  "sends_of s es = (case run s es of Inl err \<Rightarrow> [] | Inr r \<Rightarrow> snd r)"

text \<open>The line numbers that an event reports as changed.\<close>

definition changedLines_of :: "event \<Rightarrow> int list" where
  "changedLines_of e =
     (case e of
        Message wss ws (Parsed (Edit content changedLines uid)) draw \<Rightarrow> changedLines
      | _ \<Rightarrow> [])"

definition reportedLines :: "event list \<Rightarrow> int list" where
  "reportedLines es = concat (map changedLines_of es)"

text \<open>The event is a message sent over connection \<open>ws\<close>.\<close>

definition sent_by :: "conn \<Rightarrow> event \<Rightarrow> bool" where
  "sent_by ws e = (case e of Message wss ws' msg draw \<Rightarrow> ws' = ws | _ \<Rightarrow> False)"

text \<open>The event is a \<open>checkUsername\<close> message asking for the identity \<open>n\<close>.\<close>

definition asks_for :: "js_string \<Rightarrow> event \<Rightarrow> bool" where
  "asks_for n e =
     (case e of
        Message wss ws (Parsed (CheckUsername username)) draw \<Rightarrow> trim username = n
      | _ \<Rightarrow> False)"

text \<open>The rosters among the messages sent.\<close>

definition rosters :: "sends \<Rightarrow> user list list" where
  "rosters out = concat (map (\<lambda>m. case snd m of UserListUpdate us \<Rightarrow> [us] | _ \<Rightarrow> []) out)"

text \<open>The attribution snapshots among the messages sent.\<close>

definition snapshots :: "sends \<Rightarrow> (int \<rightharpoonup> attribution) list" where
  "snapshots out =
     concat (map (\<lambda>m. case snd m of LineAttributionUpdate le \<Rightarrow> [le] | _ \<Rightarrow> []) out)"

subsection \<open>Concrete inputs\<close>

definition alice :: js_string where
  "alice = [0x61, 0x6C, 0x69, 0x63, 0x65]"

definition bob :: js_string where
  "bob = [0x62, 0x6F, 0x62]"

definition hello_world :: js_string where
  "hello_world = [0x68, 0x65, 0x6C, 0x6C, 0x6F, 0x0A, 0x77, 0x6F, 0x72, 0x6C, 0x64]"

text \<open>Two open connections, \<open>1\<close> and \<open>2\<close>.\<close>

definition two_open :: clients where
  "two_open = [(1, OPEN), (2, OPEN)]"

text \<open>Connection 1 arrives and claims \<open>alice\<close>; connection 2 arrives and claims \<open>bob\<close>.\<close>

definition alice_and_bob :: "event list" where
  "alice_and_bob =
     [Connection [(1, OPEN)] 1,
      Message [(1, OPEN)] 1 (Parsed (CheckUsername alice)) 0,
      Connection two_open 2,
      Message two_open 2 (Parsed (CheckUsername bob)) 4]"

definition red :: js_string where
  "red = [0x23, 0x45, 0x46, 0x34, 0x34, 0x34, 0x34]"

definition sky :: js_string where
  "sky = [0x23, 0x30, 0x45, 0x41, 0x35, 0x45, 0x39]"

text \<open>The state that \<open>alice_and_bob\<close> leads to.\<close>

definition named_state :: state where
  "named_state =
     \<lparr>sharedDocumentContent = [],
      activeUsersMap =
        [(1, \<lparr>user_id = alice, user_color = red\<rparr>), (2, \<lparr>user_id = bob, user_color = sky\<rparr>)],
      lineEdits = Map.empty\<rparr>"

definition carol :: js_string where
  "carol = [0x63, 0x61, 0x72, 0x6F, 0x6C]"

text \<open>A blank, \<open>carol\<close>, a line feed.\<close>

definition padded_carol :: js_string where
  "padded_carol = [0x20, 0x63, 0x61, 0x72, 0x6F, 0x6C, 0x0A]"

definition amber :: js_string where
  "amber = [0x23, 0x45, 0x41, 0x42, 0x33, 0x30, 0x38]"

text \<open>Connection 1 has given up \<open>alice\<close> for \<open>carol\<close>.\<close>

definition renamed_state :: state where
  "renamed_state =
     \<lparr>sharedDocumentContent = [],
      activeUsersMap =
        [(1, \<lparr>user_id = carol, user_color = amber\<rparr>), (2, \<lparr>user_id = bob, user_color = sky\<rparr>)],
      lineEdits = Map.empty\<rparr>"

text \<open>\<open>alice\<close> has reported line \<open>-1\<close> as changed.\<close>

definition negative_state :: state where
  "negative_state =
     \<lparr>sharedDocumentContent = hello_world,
      activeUsersMap =
        [(1, \<lparr>user_id = alice, user_color = red\<rparr>), (2, \<lparr>user_id = bob, user_color = sky\<rparr>)],
      lineEdits = [- 1 \<mapsto> \<lparr>userId = alice, color = red\<rparr>]\<rparr>"

text \<open>The same, after \<open>alice_and_bob\<close>.\<close>

definition negative_scenario :: "event list" where
  "negative_scenario =
     alice_and_bob @ [Message two_open 1 (Parsed (Edit hello_world [- 1] alice)) 0]"

text \<open>A message that is not JSON, then a request for \<open>alice\<close>, both over connection 1.\<close>

definition garbage_first :: "event list" where
  "garbage_first =
     [Message [(1, OPEN)] 1 Unparseable 0,
      Message [(1, OPEN)] 1 (Parsed (CheckUsername alice)) 0]"

text \<open>The scenario of the specification, up to the edit of \<open>alice\<close>.\<close>

definition scenario :: "event list" where
  "scenario = alice_and_bob @ [Message two_open 1 (Parsed (Edit hello_world [0, 1] alice)) 0]"

text \<open>Then \<open>alice\<close> has sent \<open>hello\<close>, newline, \<open>world\<close> with both lines changed.\<close>

definition edited_state :: state where
  "edited_state =
     \<lparr>sharedDocumentContent = hello_world,
      activeUsersMap =
        [(1, \<lparr>user_id = alice, user_color = red\<rparr>), (2, \<lparr>user_id = bob, user_color = sky\<rparr>)],
      lineEdits = [0 \<mapsto> \<lparr>userId = alice, color = red\<rparr>, 1 \<mapsto> \<lparr>userId = alice, color = red\<rparr>]\<rparr>"

text \<open>Then connection 1 has closed: \<open>alice\<close> is gone, her lines are still hers.\<close>

definition closed_state :: state where
  "closed_state =
     \<lparr>sharedDocumentContent = hello_world,
      activeUsersMap = [(2, \<lparr>user_id = bob, user_color = sky\<rparr>)],
      lineEdits = [0 \<mapsto> \<lparr>userId = alice, color = red\<rparr>, 1 \<mapsto> \<lparr>userId = alice, color = red\<rparr>]\<rparr>"

text \<open>A third connection arrives.\<close>

definition newcomer :: "event list" where
  "newcomer = [Connection [(2, OPEN), (3, OPEN)] 3]"

text \<open>Or connection 3, present by then, asks for \<open>alice\<close>.\<close>

definition reclaim :: "event list" where
  "reclaim = [Message [(2, OPEN), (3, OPEN)] 3 (Parsed (CheckUsername alice)) 0]"

section \<open>Properties\<close>

subsection \<open>The map operations\<close>

lemmas trim_defs = trim_def isTrimmed_def isWhiteSpace_def isLineTerminator_def

lemma Map_has_iff: "Map_has k es \<longleftrightarrow> k \<in> fst ` set es"
  by (induction es) auto

lemma Map_delete_filter: "Map_delete k es = filter (\<lambda>e. fst e \<noteq> k) es"
  by (induction es) auto

lemma fst_Map_set: "fst ` set (Map_set k v es) = insert k (fst ` set es)"
  by (induction es) auto

lemma keys_Map_set:
  "map fst (Map_set k v es) = (if k \<in> fst ` set es then map fst es else map fst es @ [k])"
  by (induction es) auto

lemma distinct_Map_set: "distinct (map fst es) \<Longrightarrow> distinct (map fst (Map_set k v es))"
  by (simp add: keys_Map_set)

lemma set_Map_set_subset: "set (Map_set k v es) \<subseteq> insert (k, v) (set es)"
  by (induction es) auto

lemma distinct_vals_Map_set:
  "distinct (map (f \<circ> snd) es) \<Longrightarrow> f v \<notin> (f \<circ> snd) ` set es \<Longrightarrow>
   distinct (map (f \<circ> snd) (Map_set k v es))"
proof (induction es)
  case Nil
  then show ?case by simp
next
  case (Cons e es)
  have sub: "(f \<circ> snd) ` set (Map_set k v es) \<subseteq> insert (f v) ((f \<circ> snd) ` set es)"
    using set_Map_set_subset [of k v es] by auto
  from Cons show ?case using sub by auto
qed

subsection \<open>Trimming twice\<close>

lemma trim_idem_aux:
  assumes "ys = rev (dropWhile P (rev (dropWhile P xs)))"
  shows "rev (dropWhile P (rev (dropWhile P ys))) = ys"
proof (cases "ys = []")
  case True
  then show ?thesis by simp
next
  case False
  define zs where "zs = dropWhile P xs"
  have ys: "rev ys = dropWhile P (rev zs)" using assms zs_def by simp
  from False have "rev ys \<noteq> []" by simp
  with ys have last_ok: "\<not> P (hd (rev ys))"
    by (metis hd_dropWhile)
  have "zs \<noteq> []" using ys False by auto
  then have hdz: "\<not> P (hd zs)" unfolding zs_def by (metis hd_dropWhile)
  obtain pre where "rev zs = pre @ rev ys"
    using ys by (metis takeWhile_dropWhile_id)
  then have "zs = ys @ rev pre" by (metis rev_append rev_rev_ident)
  with False have "hd zs = hd ys" by simp
  with hdz have "\<not> P (hd ys)" by simp
  with False have d1: "dropWhile P ys = ys" by (cases ys) auto
  from last_ok \<open>rev ys \<noteq> []\<close> have d2: "dropWhile P (rev ys) = rev ys" by (cases "rev ys") auto
  show ?thesis by (simp add: d1 d2)
qed

lemma trim_idem: "trim (trim str) = trim str"
  unfolding trim_def by (rule trim_idem_aux) simp


subsection \<open>The loop over the changed lines\<close>

lemma fold_doc: "sharedDocumentContent (foldl (attribute_line uid) s ls) = sharedDocumentContent s"
  by (induction ls arbitrary: s) (auto simp: attribute_line_def split: option.splits)

lemma fold_users: "activeUsersMap (foldl (attribute_line uid) s ls) = activeUsersMap s"
  by (induction ls arbitrary: s) (auto simp: attribute_line_def split: option.splits)

lemma fold_lines_None:
  "find (\<lambda>u. user_id u = uid) (Map_values (activeUsersMap s)) = None \<Longrightarrow>
   foldl (attribute_line uid) s ls = s"
  by (induction ls arbitrary: s) (auto simp: attribute_line_def)

lemma fold_lines_Some:
  "find (\<lambda>u. user_id u = uid) (Map_values (activeUsersMap s)) = Some u \<Longrightarrow>
   lineEdits (foldl (attribute_line uid) s ls) i =
     (if i \<in> set ls then Some \<lparr>userId = user_id u, color = user_color u\<rparr> else lineEdits s i)"
proof (induction ls arbitrary: s)
  case Nil
  then show ?case by simp
next
  case (Cons l ls)
  let ?s = "attribute_line uid s l"
  have users: "activeUsersMap ?s = activeUsersMap s"
    using Cons.prems by (simp add: attribute_line_def)
  have "lineEdits ?s = (lineEdits s)(l \<mapsto> \<lparr>userId = user_id u, color = user_color u\<rparr>)"
    using Cons.prems by (simp add: attribute_line_def)
  then show ?case
    using Cons.IH [of ?s] Cons.prems users by simp
qed

lemma fold_lines_frame:
  "i \<notin> set ls \<Longrightarrow> lineEdits (foldl (attribute_line uid) s ls) i = lineEdits s i"
  by (induction ls arbitrary: s) (auto simp: attribute_line_def split: option.splits)

lemma fold_lines_dom:
  "dom (lineEdits (foldl (attribute_line uid) s ls)) \<subseteq> dom (lineEdits s) \<union> set ls"
proof
  fix i assume "i \<in> dom (lineEdits (foldl (attribute_line uid) s ls))"
  then have "lineEdits (foldl (attribute_line uid) s ls) i \<noteq> None" by (simp add: domIff)
  then have "i \<notin> set ls \<Longrightarrow> lineEdits s i \<noteq> None"
    by (simp add: fold_lines_frame)
  then show "i \<in> dom (lineEdits s) \<union> set ls"
    by (cases "i \<in> set ls") (simp_all add: domIff)
qed

lemma find_registered:
  assumes "distinct (map user_id us)" and "u \<in> set us"
  shows "find (\<lambda>v. user_id v = user_id u) us = Some u"
  using assms
proof (induction us)
  case Nil
  then show ?case by simp
next
  case (Cons v vs)
  then show ?case by (cases "v = u") (auto simp: image_iff)
qed

lemma find_unknown: "uid \<notin> user_id ` set us \<Longrightarrow> find (\<lambda>v. user_id v = uid) us = None"
  by (auto simp: find_None_iff)

subsection \<open>The handlers by cases\<close>

lemma registry_ok_init: "registry_ok init"
  by (simp add: registry_ok_def init_def user_ids_def Map_values_def)

lemma user_ids_Map_set:
  "set (map user_id (Map_values (Map_set k v es))) \<subseteq> insert (user_id v) (set (map user_id (Map_values es)))"
  using set_Map_set_subset [of k v es] by (auto simp: Map_values_def)

lemma isTaken_iff:
  "list_ex (\<lambda>u. user_id u = n) (Map_values (activeUsersMap s)) \<longleftrightarrow> n \<in> set (user_ids s)"
  unfolding list_ex_iff user_ids_def by force

lemma checkUsername_cases:
  "checkUsername wss s ws username draw =
     (if trim username = [] \<or> trim username \<in> set (user_ids s)
      then (s, [(ws, UsernameRejected)])
      else (s\<lparr>activeUsersMap :=
                Map_set ws \<lparr>user_id = trim username, user_color = getRandomColor draw\<rparr>
                  (activeUsersMap s)\<rparr>,
            (ws, UsernameAccepted (trim username))
              # broadcast wss (UserListUpdate (Map_values
                    (Map_set ws \<lparr>user_id = trim username, user_color = getRandomColor draw\<rparr>
                       (activeUsersMap s))))
              @ broadcast wss (LineAttributionUpdate (lineEdits s))))"
  by (simp add: checkUsername_def Let_def isTaken_iff
      broadcastUserList_def broadcastLineAttribution_def)

lemma edit_cases:
  "edit wss s content ls uid =
     (let s' = foldl (attribute_line uid) (s\<lparr>sharedDocumentContent := content\<rparr>) ls
      in (s', broadcast wss (DocumentUpdate content)
                @ broadcast wss (LineAttributionUpdate (lineEdits s'))))"
  by (simp add: edit_def Let_def fold_doc broadcastLineAttribution_def)

lemma on_close_cases:
  "on_close wss s ws =
     (if ws \<in> fst ` set (activeUsersMap s)
      then (s\<lparr>activeUsersMap := filter (\<lambda>e. fst e \<noteq> ws) (activeUsersMap s)\<rparr>,
            broadcast wss (UserListUpdate
              (Map_values (filter (\<lambda>e. fst e \<noteq> ws) (activeUsersMap s)))))
      else (s, []))"
  by (simp add: on_close_def Let_def Map_has_iff Map_delete_filter broadcastUserList_def)

subsection \<open>The registry invariant\<close>

lemma registry_ok_entries:
  "registry_ok s \<longleftrightarrow>
     distinct (map fst (activeUsersMap s)) \<and>
     distinct (map (user_id \<circ> snd) (activeUsersMap s)) \<and>
     (\<forall>e \<in> set (activeUsersMap s). user_id (snd e) \<noteq> [] \<and> trim (user_id (snd e)) = user_id (snd e))"
  by (simp add: registry_ok_def user_ids_def Map_values_def list_all_iff)

lemma set_user_ids: "set (user_ids s) = (user_id \<circ> snd) ` set (activeUsersMap s)"
  by (simp add: user_ids_def Map_values_def image_comp)

lemma registry_ok_Map_set:
  assumes ok: "registry_ok s" and ne: "n \<noteq> []" and tr: "trim n = n"
    and fresh: "n \<notin> set (user_ids s)"
  shows "registry_ok (s\<lparr>activeUsersMap := Map_set ws \<lparr>user_id = n, user_color = c\<rparr> (activeUsersMap s)\<rparr>)"
proof -
  let ?u = "\<lparr>user_id = n, user_color = c\<rparr>"
  let ?es = "Map_set ws ?u (activeUsersMap s)"
  have "(user_id \<circ> snd) (ws, ?u) \<notin> (user_id \<circ> snd) ` set (activeUsersMap s)"
    using fresh by (simp add: set_user_ids)
  then have f: "user_id ?u \<notin> (user_id \<circ> snd) ` set (activeUsersMap s)" by simp
  have d1: "distinct (map fst ?es)"
    using ok by (simp add: registry_ok_entries distinct_Map_set)
  have d0: "distinct (map (user_id \<circ> snd) (activeUsersMap s))"
    using ok by (simp add: registry_ok_entries)
  have d2: "distinct (map (user_id \<circ> snd) ?es)"
    using d0 f by (rule distinct_vals_Map_set)
  have d3: "user_id (snd e) \<noteq> [] \<and> trim (user_id (snd e)) = user_id (snd e)" if "e \<in> set ?es" for e
  proof (cases "e = (ws, ?u)")
    case True
    then show ?thesis using ne tr by simp
  next
    case False
    with that set_Map_set_subset [of ws ?u "activeUsersMap s"] have "e \<in> set (activeUsersMap s)"
      by blast
    then show ?thesis using ok unfolding registry_ok_entries by blast
  qed
  show ?thesis
    unfolding registry_ok_entries using d1 d2 d3 by simp
qed

lemma registry_ok_checkUsername:
  assumes "registry_ok s"
  shows "registry_ok (fst (checkUsername wss s ws username draw))"
proof (cases "trim username = [] \<or> trim username \<in> set (user_ids s)")
  case True
  then have "fst (checkUsername wss s ws username draw) = s"
    by (simp add: checkUsername_cases)
  then show ?thesis using assms by simp
next
  case False
  then have "fst (checkUsername wss s ws username draw) =
      s\<lparr>activeUsersMap := Map_set ws \<lparr>user_id = trim username, user_color = getRandomColor draw\<rparr>
          (activeUsersMap s)\<rparr>"
    by (simp add: checkUsername_cases)
  moreover have "registry_ok \<dots>"
    using assms False by (intro registry_ok_Map_set) (simp_all add: trim_idem)
  ultimately show ?thesis by simp
qed

lemma registry_ok_edit:
  "registry_ok s \<Longrightarrow> registry_ok (fst (edit wss s content ls uid))"
  by (simp add: edit_cases Let_def registry_ok_def user_ids_def fold_users)

lemma registry_ok_on_close:
  assumes "registry_ok s"
  shows "registry_ok (fst (on_close wss s ws))"
proof -
  let ?es = "filter (\<lambda>e. fst e \<noteq> ws) (activeUsersMap s)"
  have "distinct (map fst ?es)" and "distinct (map (user_id \<circ> snd) ?es)"
    using assms by (simp_all add: registry_ok_def user_ids_def Map_values_def distinct_map_filter)
  moreover have "\<forall>n \<in> set (map (user_id \<circ> snd) ?es). n \<noteq> [] \<and> trim n = n"
    using assms by (auto simp: registry_ok_def user_ids_def Map_values_def list_all_iff)
  ultimately show ?thesis
    using assms
    by (simp add: on_close_cases registry_ok_def user_ids_def Map_values_def list_all_iff)
qed

lemma registry_ok_handle:
  assumes "registry_ok s" and "handle s e = Inr (s', out)"
  shows "registry_ok s'"
proof (cases e)
  case (Connection wss ws)
  then show ?thesis using assms by (simp add: handle_def)
next
  case (Message wss ws msg draw)
  show ?thesis
  proof (cases msg)
    case Unparseable
    then show ?thesis using assms Message by (simp add: handle_def on_message_def)
  next
    case (Parsed p)
    show ?thesis
    proof (cases p)
      case (CheckUsername username)
      then have "s' = fst (checkUsername wss s ws username draw)"
        using assms Message Parsed by (simp add: handle_def on_message_def)
      then show ?thesis using assms(1) by (simp add: registry_ok_checkUsername)
    next
      case (Edit content ls uid)
      then have "s' = fst (edit wss s content ls uid)"
        using assms Message Parsed by (simp add: handle_def on_message_def)
      then show ?thesis using assms(1) by (simp add: registry_ok_edit)
    next
      case Other
      then show ?thesis using assms Message Parsed by (simp add: handle_def on_message_def)
    qed
  qed
next
  case (Close wss ws)
  then have "s' = fst (on_close wss s ws)"
    using assms by (simp add: handle_def)
  then show ?thesis using assms(1) by (simp add: registry_ok_on_close)
next
  case (Error ws)
  then show ?thesis using assms by (simp add: handle_def)
qed

lemma run_Cons_Inr:
  assumes "run s (e # es) = Inr (s'', out'')"
  obtains s' out out' where "handle s e = Inr (s', out)" and "run s' es = Inr (s'', out')"
    and "out'' = out @ out'"
  using assms by (auto split: sum.splits prod.splits)

lemma registry_ok_run:
  "registry_ok s \<Longrightarrow> run s es = Inr (s', out) \<Longrightarrow> registry_ok s'"
proof (induction es arbitrary: s out)
  case Nil
  then show ?case by simp
next
  case (Cons e es)
  from Cons.prems(2) obtain s1 out1 out2 where
    h: "handle s e = Inr (s1, out1)" and r: "run s1 es = Inr (s', out2)"
    by (rule run_Cons_Inr)
  from Cons.prems(1) h have "registry_ok s1" by (rule registry_ok_handle)
  then show ?case using r by (rule Cons.IH)
qed

lemma reachable_ok: "run init es = Inr (s, out) \<Longrightarrow> registry_ok s"
  using registry_ok_init by (rule registry_ok_run)

subsection \<open>Runs and concrete inputs\<close>

lemmas eval_defs =
  handle_def on_connection_def on_message_def checkUsername_def edit_def on_close_def
  attribute_line_def broadcast_def broadcastUserList_def broadcastLineAttribution_def
  Map_values_def getRandomColor_def colors_def final_state_def user_ids_def Let_def
  init_def alice_def bob_def hello_world_def two_open_def red_def sky_def
  named_state_def edited_state_def alice_and_bob_def carol_def amber_def renamed_state_def
  negative_state_def sends_of_def negative_scenario_def garbage_first_def scenario_def
  closed_state_def newcomer_def reclaim_def

lemma final_alice_and_bob: "final_state init alice_and_bob = Some named_state"
  by (simp add: eval_defs trim_defs)

lemma final_state_Some: "final_state s es = Some s' \<longleftrightarrow> (\<exists>out. run s es = Inr (s', out))"
  by (auto simp: final_state_def split: sum.splits)

lemma reachable_registry_ok: "final_state init es = Some s \<Longrightarrow> registry_ok s"
  using reachable_ok by (auto simp: final_state_Some)

lemma set_broadcast: "set (broadcast wss m) = (\<lambda>c. (c, m)) ` {c. (c, OPEN) \<in> set wss}"
  by (force simp: broadcast_def)

subsection \<open>Editing twice\<close>

lemma foldl_attribute_line_twice:
  "foldl (attribute_line uid) (foldl (attribute_line uid) s ls) ls = foldl (attribute_line uid) s ls"
proof (cases "find (\<lambda>u. user_id u = uid) (Map_values (activeUsersMap s))")
  case None
  then show ?thesis by (simp add: fold_lines_None)
next
  case (Some u)
  let ?s1 = "foldl (attribute_line uid) s ls"
  have f1: "find (\<lambda>u. user_id u = uid) (Map_values (activeUsersMap ?s1)) = Some u"
    using Some by (simp add: fold_users)
  have "lineEdits (foldl (attribute_line uid) ?s1 ls) i = lineEdits ?s1 i" for i
    by (simp add: fold_lines_Some [OF f1] fold_lines_Some [OF Some])
  then have "lineEdits (foldl (attribute_line uid) ?s1 ls) = lineEdits ?s1"
    by (rule ext)
  then show ?thesis
    by (intro state.equality) (simp_all add: fold_doc fold_users)
qed

lemma edit_twice:
  "edit wss' (fst (edit wss s content ls uid)) content ls uid
     = (fst (edit wss s content ls uid),
        broadcast wss' (DocumentUpdate content)
          @ broadcast wss' (LineAttributionUpdate (lineEdits (fst (edit wss s content ls uid)))))"
proof -
  let ?s1 = "foldl (attribute_line uid) (s\<lparr>sharedDocumentContent := content\<rparr>) ls"
  have "?s1\<lparr>sharedDocumentContent := content\<rparr> = ?s1"
    by (intro state.equality) (simp_all add: fold_doc)
  then show ?thesis
    by (simp add: edit_cases Let_def foldl_attribute_line_twice)
qed

subsection \<open>Claiming a name\<close>

lemma Map_set_present:
  "distinct (map fst es) \<Longrightarrow> k \<in> fst ` set es \<Longrightarrow>
   Map_set k v es = map (\<lambda>e. if fst e = k then (k, v) else e) es"
proof (induction es)
  case Nil
  then show ?case by simp
next
  case (Cons e es)
  show ?case
  proof (cases "fst e = k")
    case True
    with Cons.prems have "k \<notin> fst ` set es" by auto
    then have "map (\<lambda>e. if fst e = k then (k, v) else e) es = es"
      by (intro map_idI) auto
    with True show ?thesis by simp
  next
    case False
    with Cons show ?thesis by auto
  qed
qed

lemma same_identity_same_entry:
  assumes "registry_ok s" and "e1 \<in> set (activeUsersMap s)" and "e2 \<in> set (activeUsersMap s)"
    and "user_id (snd e1) = user_id (snd e2)"
  shows "e1 = e2"
proof -
  have "inj_on (user_id \<circ> snd) (set (activeUsersMap s))"
    using assms(1) by (simp add: registry_ok_entries distinct_map)
  moreover have "(user_id \<circ> snd) e1 = (user_id \<circ> snd) e2" using assms(4) by simp
  ultimately show ?thesis using assms(2,3) by (rule inj_onD)
qed

lemma accepted_only_fresh:
  assumes "(ws, UsernameAccepted n) \<in> set (snd (checkUsername wss s ws username draw))"
  shows "n = trim username \<and> n \<noteq> [] \<and> n \<notin> set (user_ids s)"
proof (cases "trim username = [] \<or> trim username \<in> set (user_ids s)")
  case True
  then show ?thesis using assms by (simp add: checkUsername_cases)
next
  case False
  then show ?thesis using assms by (auto simp: checkUsername_cases set_broadcast)
qed

lemma checkUsername_accepted:
  assumes "trim username \<noteq> []" and "trim username \<notin> set (user_ids s)"
  shows "checkUsername wss s ws username draw =
     (s\<lparr>activeUsersMap :=
          Map_set ws \<lparr>user_id = trim username, user_color = getRandomColor draw\<rparr>
            (activeUsersMap s)\<rparr>,
      (ws, UsernameAccepted (trim username))
        # broadcast wss (UserListUpdate (Map_values
              (Map_set ws \<lparr>user_id = trim username, user_color = getRandomColor draw\<rparr>
                 (activeUsersMap s))))
        @ broadcast wss (LineAttributionUpdate (lineEdits s)))"
  using assms by (simp add: checkUsername_cases)

subsection \<open>What one event can change\<close>

lemma handle_Inr_cases:
  assumes "handle s e = Inr (s', out)"
  obtains
    (Connection) wss ws where "e = Connection wss ws" "s' = s" "out = on_connection wss s ws"
  | (CheckUsername) wss ws username draw where
      "e = Message wss ws (Parsed (CheckUsername username)) draw"
      "checkUsername wss s ws username draw = (s', out)"
  | (Edit) wss ws content ls uid draw where
      "e = Message wss ws (Parsed (Edit content ls uid)) draw"
      "edit wss s content ls uid = (s', out)"
  | (Other) wss ws draw where "e = Message wss ws (Parsed Other) draw" "s' = s" "out = []"
  | (Close) wss ws where "e = Close wss ws" "on_close wss s ws = (s', out)"
  | (Error) ws where "e = Error ws" "s' = s" "out = []"
  using assms
  by (auto simp: handle_def on_message_def split: event.splits message.splits parsed.splits)

lemma snapshots_iff:
  "le \<in> set (snapshots out) \<longleftrightarrow> (\<exists>c. (c, LineAttributionUpdate le) \<in> set out)"
  by (induction out) (auto simp: snapshots_def split: server_message.splits)

lemma rosters_iff:
  "us \<in> set (rosters out) \<longleftrightarrow> (\<exists>c. (c, UserListUpdate us) \<in> set out)"
  by (induction out) (auto simp: rosters_def split: server_message.splits)

lemma handle_lines:
  assumes "handle s e = Inr (s', out)"
  shows "dom (lineEdits s') \<subseteq> dom (lineEdits s) \<union> set (changedLines_of e)"
  using assms
proof (cases rule: handle_Inr_cases)
  case (CheckUsername wss ws username draw)
  then have "lineEdits s' = lineEdits s"
    by (auto simp: checkUsername_cases split: if_splits)
  then show ?thesis by simp
next
  case (Edit wss ws content ls uid draw)
  then have "lineEdits s' = lineEdits (foldl (attribute_line uid) (s\<lparr>sharedDocumentContent := content\<rparr>) ls)"
    by (auto simp: edit_cases Let_def)
  then show ?thesis
    using fold_lines_dom [of uid "s\<lparr>sharedDocumentContent := content\<rparr>" ls] Edit(1)
    by (simp add: changedLines_of_def)
next
  case (Close wss ws)
  then have "lineEdits s' = lineEdits s"
    by (auto simp: on_close_cases split: if_splits)
  then show ?thesis by simp
qed simp_all

lemma handle_snapshots:
  assumes "handle s e = Inr (s', out)" and "le \<in> set (snapshots out)"
  shows "le = lineEdits s \<or> le = lineEdits s'"
  using assms(1)
proof (cases rule: handle_Inr_cases)
  case (Connection wss ws)
  then show ?thesis
    using assms(2)
    by (auto simp: snapshots_iff on_connection_def broadcastUserList_def
        broadcastLineAttribution_def set_broadcast)
next
  case (CheckUsername wss ws username draw)
  then show ?thesis
    using assms(2)
    by (auto simp: snapshots_iff checkUsername_cases set_broadcast split: if_splits)
next
  case (Edit wss ws content ls uid draw)
  then show ?thesis
    using assms(2) by (auto simp: snapshots_iff edit_cases Let_def set_broadcast)
next
  case (Other wss ws draw)
  then show ?thesis using assms(2) by (simp add: snapshots_def)
next
  case (Close wss ws)
  then show ?thesis
    using assms(2) by (auto simp: snapshots_iff on_close_cases set_broadcast split: if_splits)
next
  case (Error ws)
  then show ?thesis using assms(2) by (simp add: snapshots_def)
qed

lemma snapshots_append: "snapshots (xs @ ys) = snapshots xs @ snapshots ys"
  by (simp add: snapshots_def)

lemma run_lines:
  "run s es = Inr (s', out) \<Longrightarrow>
   dom (lineEdits s') \<subseteq> dom (lineEdits s) \<union> set (reportedLines es) \<and>
   (\<forall>le \<in> set (snapshots out). dom le \<subseteq> dom (lineEdits s) \<union> set (reportedLines es))"
proof (induction es arbitrary: s out)
  case Nil
  then show ?case by (simp add: snapshots_def reportedLines_def)
next
  case (Cons e es)
  from Cons.prems obtain s1 out1 out2 where
    h: "handle s e = Inr (s1, out1)" and r: "run s1 es = Inr (s', out2)" and o: "out = out1 @ out2"
    by (rule run_Cons_Inr)
  have rep: "set (reportedLines (e # es)) = set (changedLines_of e) \<union> set (reportedLines es)"
    by (simp add: reportedLines_def)
  have d1: "dom (lineEdits s1) \<subseteq> dom (lineEdits s) \<union> set (changedLines_of e)"
    using h by (rule handle_lines)
  have ih: "dom (lineEdits s') \<subseteq> dom (lineEdits s1) \<union> set (reportedLines es)"
    "\<forall>le \<in> set (snapshots out2). dom le \<subseteq> dom (lineEdits s1) \<union> set (reportedLines es)"
    using Cons.IH [OF r] by simp_all
  have first: "dom le \<subseteq> dom (lineEdits s) \<union> set (changedLines_of e)"
    if "le \<in> set (snapshots out1)" for le
    using handle_snapshots [OF h that] d1 by auto
  have "dom (lineEdits s') \<subseteq> dom (lineEdits s) \<union> set (reportedLines (e # es))"
    using ih(1) d1 unfolding rep by blast
  moreover have "dom le \<subseteq> dom (lineEdits s) \<union> set (reportedLines (e # es))"
    if "le \<in> set (snapshots out)" for le
  proof -
    from that o have "le \<in> set (snapshots out1) \<or> le \<in> set (snapshots out2)"
      by (simp add: snapshots_append)
    then show ?thesis
      using first ih(2) d1 unfolding rep by blast
  qed
  ultimately show ?case by blast
qed

lemma final_and_sends: "final_state s es = Some s' \<Longrightarrow> run s es = Inr (s', sends_of s es)"
  by (auto simp: final_state_def sends_of_def split: sum.splits)

lemma final_scenario: "final_state init scenario = Some edited_state"
  by (simp add: eval_defs trim_defs)

lemma handle_keys:
  assumes "handle s e = Inr (s', out)"
  shows "fst ` set (activeUsersMap s') \<subseteq> fst ` set (activeUsersMap s) \<union> {ws. sent_by ws e}"
  using assms
proof (cases rule: handle_Inr_cases)
  case (CheckUsername wss ws username draw)
  show ?thesis
  proof (cases "trim username = [] \<or> trim username \<in> set (user_ids s)")
    case True
    with CheckUsername have "s' = s" by (simp add: checkUsername_cases)
    then show ?thesis by simp
  next
    case False
    with CheckUsername have "activeUsersMap s' =
        Map_set ws \<lparr>user_id = trim username, user_color = getRandomColor draw\<rparr> (activeUsersMap s)"
      by (auto simp: checkUsername_cases)
    then have "fst ` set (activeUsersMap s') = insert ws (fst ` set (activeUsersMap s))"
      by (simp add: fst_Map_set)
    then show ?thesis
      using CheckUsername(1) by (auto simp: sent_by_def)
  qed
next
  case (Edit wss ws content ls uid draw)
  then have "activeUsersMap s' = activeUsersMap s"
    by (auto simp: edit_cases Let_def fold_users)
  then show ?thesis by simp
next
  case (Close wss ws)
  then show ?thesis
    by (auto simp: on_close_cases split: if_splits)
qed simp_all

lemma handle_ids:
  assumes "handle s e = Inr (s', out)"
  shows "set (user_ids s') \<subseteq> set (user_ids s) \<union> {n. asks_for n e}"
  using assms
proof (cases rule: handle_Inr_cases)
  case (CheckUsername wss ws username draw)
  show ?thesis
  proof (cases "trim username = [] \<or> trim username \<in> set (user_ids s)")
    case True
    with CheckUsername have "s' = s" by (simp add: checkUsername_cases)
    then show ?thesis by simp
  next
    case False
    with CheckUsername have "activeUsersMap s' =
        Map_set ws \<lparr>user_id = trim username, user_color = getRandomColor draw\<rparr> (activeUsersMap s)"
      by (auto simp: checkUsername_cases)
    then have "set (user_ids s') \<subseteq> insert (trim username) (set (user_ids s))"
      using user_ids_Map_set [of ws "\<lparr>user_id = trim username, user_color = getRandomColor draw\<rparr>"
          "activeUsersMap s"]
      by (simp add: user_ids_def)
    then show ?thesis
      using CheckUsername(1) by (auto simp: asks_for_def)
  qed
next
  case (Edit wss ws content ls uid draw)
  then have "activeUsersMap s' = activeUsersMap s"
    by (auto simp: edit_cases Let_def fold_users)
  then show ?thesis by (simp add: user_ids_def)
next
  case (Close wss ws)
  then show ?thesis
    by (auto simp: on_close_cases user_ids_def Map_values_def split: if_splits)
qed simp_all

lemma handle_rosters:
  assumes "handle s e = Inr (s', out)" and "us \<in> set (rosters out)"
  shows "us = Map_values (activeUsersMap s) \<or> us = Map_values (activeUsersMap s')"
  using assms(1)
proof (cases rule: handle_Inr_cases)
  case (Connection wss ws)
  then show ?thesis
    using assms(2)
    by (auto simp: rosters_iff on_connection_def broadcastUserList_def
        broadcastLineAttribution_def set_broadcast)
next
  case (CheckUsername wss ws username draw)
  then show ?thesis
    using assms(2)
    by (auto simp: rosters_iff checkUsername_cases set_broadcast split: if_splits)
next
  case (Edit wss ws content ls uid draw)
  then show ?thesis
    using assms(2) by (auto simp: rosters_iff edit_cases Let_def set_broadcast)
next
  case (Other wss ws draw)
  then show ?thesis using assms(2) by (simp add: rosters_def)
next
  case (Close wss ws)
  then show ?thesis
    using assms(2) by (auto simp: rosters_iff on_close_cases set_broadcast split: if_splits)
next
  case (Error ws)
  then show ?thesis using assms(2) by (simp add: rosters_def)
qed

lemma rosters_append: "rosters (xs @ ys) = rosters xs @ rosters ys"
  by (simp add: rosters_def)

lemma run_absent_conn:
  "run s es = Inr (s', out) \<Longrightarrow> ws \<notin> fst ` set (activeUsersMap s) \<Longrightarrow>
   \<not> list_ex (sent_by ws) es \<Longrightarrow> ws \<notin> fst ` set (activeUsersMap s')"
proof (induction es arbitrary: s out)
  case Nil
  then show ?case by simp
next
  case (Cons e es)
  from Cons.prems(1) obtain s1 out1 out2 where
    h: "handle s e = Inr (s1, out1)" and r: "run s1 es = Inr (s', out2)"
    by (rule run_Cons_Inr)
  have "ws \<notin> fst ` set (activeUsersMap s1)"
    using handle_keys [OF h] Cons.prems(2,3) by auto
  then show ?case
    using Cons.IH [OF r] Cons.prems(3) by simp
qed

lemma run_absent_id:
  "run s es = Inr (s', out) \<Longrightarrow> n \<notin> set (user_ids s) \<Longrightarrow>
   \<not> list_ex (asks_for n) es \<Longrightarrow>
   n \<notin> set (user_ids s') \<and> (\<forall>us \<in> set (rosters out). n \<notin> user_id ` set us)"
proof (induction es arbitrary: s out)
  case Nil
  then show ?case by (simp add: rosters_def)
next
  case (Cons e es)
  from Cons.prems(1) obtain s1 out1 out2 where
    h: "handle s e = Inr (s1, out1)" and r: "run s1 es = Inr (s', out2)" and o: "out = out1 @ out2"
    by (rule run_Cons_Inr)
  have n1: "n \<notin> set (user_ids s1)"
    using handle_ids [OF h] Cons.prems(2,3) by auto
  have rest: "\<not> list_ex (asks_for n) es" using Cons.prems(3) by simp
  have ih: "n \<notin> set (user_ids s')" "\<forall>us \<in> set (rosters out2). n \<notin> user_id ` set us"
    using Cons.IH [OF r n1 rest] by simp_all
  have first: "n \<notin> user_id ` set us" if "us \<in> set (rosters out1)" for us
    using handle_rosters [OF h that] Cons.prems(2) n1 by (auto simp: user_ids_def)
  have "n \<notin> user_id ` set us" if "us \<in> set (rosters out)" for us
    using that first ih(2) unfolding o rosters_append by auto
  with ih(1) show ?case by blast
qed

section \<open>The claims\<close>

text \<open>
  C3. A \<open>checkUsername\<close> message whose username is empty after trimming, or whose trimmed
  username is an identity that a registered participant holds, is answered with
  \<open>usernameRejected\<close> to the sender alone: the handler returns the state it was given
  (registry, document and attribution), and that reply is the only message sent, so there is
  no broadcast.
\<close>

theorem checkUsername_rejected:
  assumes "trim username = [] \<or> trim username \<in> set (user_ids s)"
  shows "on_message wss s ws (Parsed (CheckUsername username)) draw
           = Inr (s, [(ws, UsernameRejected)])"
  using assms by (simp add: on_message_def checkUsername_cases)

text \<open>Two blanks are rejected, and so is \<open>alice\<close> once connection 1 holds that name.\<close>

theorem checkUsername_rejected_witness:
  "(trim [0x20, 0x20] = [] \<or> trim [0x20, 0x20] \<in> set (user_ids named_state)) \<and>
   on_message two_open named_state 2 (Parsed (CheckUsername [0x20, 0x20])) 5
     = Inr (named_state, [(2, UsernameRejected)]) \<and>
   (trim alice = [] \<or> trim alice \<in> set (user_ids named_state)) \<and>
   on_message two_open named_state 2 (Parsed (CheckUsername alice)) 5
     = Inr (named_state, [(2, UsernameRejected)])"
proof -
  have blank: "trim [0x20, 0x20] = [] \<or> trim [0x20, 0x20] \<in> set (user_ids named_state)"
    by (simp add: trim_defs)
  have taken: "trim alice = [] \<or> trim alice \<in> set (user_ids named_state)"
    by (simp add: trim_defs alice_def named_state_def user_ids_def Map_values_def)
  show ?thesis
    using blank taken
      checkUsername_rejected [OF blank, of two_open 2 5]
      checkUsername_rejected [OF taken, of two_open 2 5]
    by simp
qed

text \<open>
  C6. The \<open>edit\<close> handler returns normally, and every entry of the line attribution whose
  index is not among \<open>changedLines\<close> is what it was before, whatever the new content is (so
  also when the content has fewer lines than the index).
\<close>

theorem edit_keeps_unlisted_lines:
  "on_message wss s ws (Parsed (Edit content changedLines uid)) draw
     = Inr (edit wss s content changedLines uid) \<and>
   (\<forall>j. j \<notin> set changedLines \<longrightarrow>
      lineEdits (fst (edit wss s content changedLines uid)) j = lineEdits s j)"
  by (simp add: on_message_def edit_cases Let_def fold_lines_frame)

text \<open>
  The document has two lines, both attributed to \<open>alice\<close>; \<open>bob\<close> replaces it by the single
  line \<open>bob\<close> and reports line 0. Line 1 is gone from the document and still \<open>alice\<close>'s.
\<close>

theorem edit_keeps_unlisted_lines_witness:
  "1 \<notin> set [0::int] \<and>
   lineEdits (fst (edit two_open edited_state bob [0] bob)) 1
     = Some \<lparr>userId = alice, color = red\<rparr> \<and>
   lineEdits (fst (edit two_open edited_state bob [0] bob)) 0
     = Some \<lparr>userId = bob, color = sky\<rparr>"
  using edit_keeps_unlisted_lines [of two_open edited_state 2 bob "[0]" bob 0]
  by (simp add: eval_defs)

text \<open>
  C7. Handling the same \<open>edit\<close> message twice in a row ends in the state that handling it
  once ends in, so the document and the line attribution are the same; the second handling
  only repeats the broadcasts of the first.
\<close>

theorem edit_idempotent:
  "run s [Message wss ws (Parsed (Edit content changedLines uid)) draw]
     = Inr (edit wss s content changedLines uid) \<and>
   run s [Message wss ws (Parsed (Edit content changedLines uid)) draw,
          Message wss ws (Parsed (Edit content changedLines uid)) draw]
     = Inr (fst (edit wss s content changedLines uid),
            snd (edit wss s content changedLines uid) @ snd (edit wss s content changedLines uid))"
proof -
  let ?m = "Message wss ws (Parsed (Edit content changedLines uid)) draw"
  let ?r = "edit wss s content changedLines uid"
  have h1: "handle s ?m = Inr (fst ?r, snd ?r)"
    by (simp add: handle_def on_message_def)
  have "edit wss (fst ?r) content changedLines uid = (fst ?r, snd ?r)"
    by (simp add: edit_twice) (simp add: edit_cases Let_def)
  then have h2: "handle (fst ?r) ?m = Inr (fst ?r, snd ?r)"
    by (simp add: handle_def on_message_def)
  show ?thesis
    using h1 h2 by (simp add: case_prod_unfold)
qed

text \<open>\<open>alice\<close> sends her two-line edit twice.\<close>

theorem edit_idempotent_witness:
  "final_state named_state
     [Message two_open 1 (Parsed (Edit hello_world [0, 1] alice)) 0,
      Message two_open 1 (Parsed (Edit hello_world [0, 1] alice)) 0]
     = Some (fst (edit two_open named_state hello_world [0, 1] alice)) \<and>
   sharedDocumentContent (fst (edit two_open named_state hello_world [0, 1] alice)) = hello_world \<and>
   lineEdits (fst (edit two_open named_state hello_world [0, 1] alice)) 1
     = Some \<lparr>userId = alice, color = red\<rparr>"
  using edit_idempotent [of named_state two_open 1 hello_world "[0, 1]" alice 0]
  by (simp add: final_state_def) (simp add: eval_defs)

text \<open>
  C9. An \<open>edit\<close> whose \<open>userId\<close> is no registered participant's identity still replaces the
  document, and still sends \<open>documentUpdate\<close> and \<open>lineAttributionUpdate\<close> to every open
  connection. The line attribution and the registry stay as they were, the handler returns
  normally, and nothing but these two broadcasts is sent, so the sender hears of no error.
\<close>

theorem edit_by_unknown_user:
  assumes "uid \<notin> set (user_ids s)"
  shows "on_message wss s ws (Parsed (Edit content changedLines uid)) draw
           = Inr (s\<lparr>sharedDocumentContent := content\<rparr>,
                  broadcast wss (DocumentUpdate content)
                    @ broadcast wss (LineAttributionUpdate (lineEdits s))) \<and>
         set (broadcast wss (DocumentUpdate content)
                @ broadcast wss (LineAttributionUpdate (lineEdits s)))
           = (\<lambda>c. (c, DocumentUpdate content)) ` {c. (c, OPEN) \<in> set wss}
             \<union> (\<lambda>c. (c, LineAttributionUpdate (lineEdits s))) ` {c. (c, OPEN) \<in> set wss}"
proof -
  have "find (\<lambda>u. user_id u = uid) (Map_values (activeUsersMap s)) = None"
    using assms by (simp add: find_unknown user_ids_def)
  then have "foldl (attribute_line uid) (s\<lparr>sharedDocumentContent := content\<rparr>) changedLines
               = s\<lparr>sharedDocumentContent := content\<rparr>"
    by (simp add: fold_lines_None)
  then show ?thesis
    by (simp add: on_message_def edit_cases Let_def set_broadcast)
qed

text \<open>Nobody is called \<open>eve\<close>; connection 2 is closing and is skipped.\<close>

theorem edit_by_unknown_user_witness:
  "[0x65, 0x76, 0x65] \<notin> set (user_ids edited_state) \<and>
   on_message [(1, OPEN), (2, CLOSING)] edited_state 1
       (Parsed (Edit bob [0, 5] [0x65, 0x76, 0x65])) 0
     = Inr (edited_state\<lparr>sharedDocumentContent := bob\<rparr>,
            [(1, DocumentUpdate bob), (1, LineAttributionUpdate (lineEdits edited_state))])"
proof -
  have unknown: "[0x65, 0x76, 0x65] \<notin> set (user_ids edited_state)"
    by (simp add: user_ids_def Map_values_def edited_state_def alice_def bob_def)
  show ?thesis
    using unknown edit_by_unknown_user [OF unknown, of "[(1, OPEN), (2, CLOSING)]" 1 bob "[0, 5]" 0]
    by (simp add: broadcast_def)
qed

text \<open>
  C2. In a state the server can reach, an \<open>edit\<close> whose \<open>userId\<close> is the identity of a
  registered participant \<open>u\<close> makes the shared document equal to \<open>content\<close>, sends a
  \<open>documentUpdate\<close> to every open connection, every \<open>documentUpdate\<close> sent carries
  \<open>content\<close> and goes to an open connection, and for every index in \<open>changedLines\<close> the
  attribution entry is \<open>{userId, color}\<close> with the identity and the colour of \<open>u\<close>.
\<close>

theorem edit_by_registered_user:
  assumes "final_state init es = Some s" and "(c, u) \<in> set (activeUsersMap s)"
  shows "on_message wss s ws (Parsed (Edit content changedLines (user_id u))) draw
           = Inr (edit wss s content changedLines (user_id u)) \<and>
         sharedDocumentContent (fst (edit wss s content changedLines (user_id u))) = content \<and>
         (\<forall>c'. (c', OPEN) \<in> set wss \<longrightarrow>
            (c', DocumentUpdate content) \<in> set (snd (edit wss s content changedLines (user_id u)))) \<and>
         (\<forall>c' d. (c', DocumentUpdate d) \<in> set (snd (edit wss s content changedLines (user_id u)))
            \<longrightarrow> d = content \<and> (c', OPEN) \<in> set wss) \<and>
         (\<forall>i \<in> set changedLines.
            lineEdits (fst (edit wss s content changedLines (user_id u))) i
              = Some \<lparr>userId = user_id u, color = user_color u\<rparr>)"
proof -
  let ?s0 = "s\<lparr>sharedDocumentContent := content\<rparr>"
  have "registry_ok s" using assms(1) by (rule reachable_registry_ok)
  then have "distinct (map user_id (Map_values (activeUsersMap s)))"
    by (simp add: registry_ok_def user_ids_def)
  moreover have "u \<in> set (Map_values (activeUsersMap s))"
    using assms(2) by (force simp: Map_values_def)
  ultimately have "find (\<lambda>v. user_id v = user_id u) (Map_values (activeUsersMap s)) = Some u"
    by (rule find_registered)
  then have f: "find (\<lambda>v. user_id v = user_id u) (Map_values (activeUsersMap ?s0)) = Some u"
    by simp
  have lines: "\<forall>i \<in> set changedLines.
      lineEdits (foldl (attribute_line (user_id u)) ?s0 changedLines) i
        = Some \<lparr>userId = user_id u, color = user_color u\<rparr>"
    by (simp add: fold_lines_Some [OF f])
  have docs: "(c', DocumentUpdate d) \<in> set (snd (edit wss s content changedLines (user_id u)))
      \<longleftrightarrow> d = content \<and> (c', OPEN) \<in> set wss" for c' d
    by (auto simp: edit_cases Let_def set_broadcast)
  show ?thesis
    using lines docs by (simp add: on_message_def) (simp add: edit_cases Let_def fold_doc)
qed

text \<open>The scenario of the specification: \<open>alice\<close> sends two lines, both changed.\<close>

theorem edit_by_registered_user_witness:
  "final_state init alice_and_bob = Some named_state \<and>
   (1, \<lparr>user_id = alice, user_color = red\<rparr>) \<in> set (activeUsersMap named_state) \<and>
   (2, OPEN) \<in> set two_open \<and> 1 \<in> set [0, 1 :: int] \<and>
   sharedDocumentContent (fst (edit two_open named_state hello_world [0, 1] alice)) = hello_world \<and>
   (2, DocumentUpdate hello_world) \<in> set (snd (edit two_open named_state hello_world [0, 1] alice)) \<and>
   lineEdits (fst (edit two_open named_state hello_world [0, 1] alice)) 1
     = Some \<lparr>userId = alice, color = red\<rparr>"
proof -
  have reg: "(1, \<lparr>user_id = alice, user_color = red\<rparr>) \<in> set (activeUsersMap named_state)"
    by (simp add: named_state_def)
  have op: "(2, OPEN) \<in> set two_open" by (simp add: two_open_def)
  show ?thesis
    using reg op final_alice_and_bob
      edit_by_registered_user [OF final_alice_and_bob reg, of two_open 1 hello_world "[0, 1]" 0]
    by simp
qed

text \<open>
  C1. In every state that a sequence of events leads to from the initial state, no two
  connections hold the same identity, every identity held is a string that \<open>trim\<close> leaves
  as it is, and a \<open>checkUsername\<close> is answered with \<open>usernameAccepted\<close> only for the
  trimmed requested name and only if no registered participant holds exactly that name.
\<close>

theorem identity_held_once:
  assumes "final_state init es = Some s"
  shows "distinct (user_ids s) \<and>
         (\<forall>c1 u1 c2 u2. (c1, u1) \<in> set (activeUsersMap s) \<and> (c2, u2) \<in> set (activeUsersMap s) \<and>
            user_id u1 = user_id u2 \<longrightarrow> c1 = c2) \<and>
         (\<forall>n \<in> set (user_ids s). trim n = n) \<and>
         (\<forall>wss ws username draw n.
            (ws, UsernameAccepted n) \<in> set (snd (checkUsername wss s ws username draw)) \<longrightarrow>
            n = trim username \<and> n \<notin> set (user_ids s))"
proof -
  have ok: "registry_ok s" using assms by (rule reachable_registry_ok)
  have one: "c1 = c2"
    if "(c1, u1) \<in> set (activeUsersMap s)" "(c2, u2) \<in> set (activeUsersMap s)"
      "user_id u1 = user_id u2" for c1 u1 c2 u2
    using same_identity_same_entry [OF ok that(1) that(2)] that(3) by simp
  have "distinct (user_ids s)" and "\<forall>n \<in> set (user_ids s). trim n = n"
    using ok by (simp_all add: registry_ok_def list_all_iff)
  then show ?thesis
    using one accepted_only_fresh by blast
qed

text \<open>With \<open>alice\<close> and \<open>bob\<close> registered, \<open>carol\<close> is accepted and a second \<open>alice\<close> is not.\<close>

theorem identity_held_once_witness:
  "final_state init alice_and_bob = Some named_state \<and>
   distinct (user_ids named_state) \<and>
   (2, UsernameAccepted carol) \<in> set (snd (checkUsername two_open named_state 2 carol 1)) \<and>
   carol \<notin> set (user_ids named_state) \<and>
   (2, UsernameAccepted alice) \<notin> set (snd (checkUsername two_open named_state 2 alice 1))"
proof -
  have acc: "(2, UsernameAccepted carol) \<in> set (snd (checkUsername two_open named_state 2 carol 1))"
    by (simp add: eval_defs trim_defs)
  have rej: "(2, UsernameAccepted alice) \<notin> set (snd (checkUsername two_open named_state 2 alice 1))"
    by (simp add: eval_defs trim_defs)
  show ?thesis
    using acc rej final_alice_and_bob identity_held_once [OF final_alice_and_bob]
    by blast
qed

text \<open>
  C10. In a reachable state, a connection that holds an identity and asks for a name that is
  non-empty after trimming and held by nobody is accepted. Its entry is overwritten where it
  stands with the new identity and the colour of the new draw, every other entry is kept, the
  connections of the registry stay pairwise different, the previous identity is held by no
  one, and whoever asks for the previous identity next is accepted.
\<close>

theorem rename_accepted:
  assumes "final_state init es = Some s" and "(ws, old) \<in> set (activeUsersMap s)"
    and "trim username \<noteq> []" and "trim username \<notin> set (user_ids s)"
  shows "on_message wss s ws (Parsed (CheckUsername username)) draw
           = Inr (checkUsername wss s ws username draw) \<and>
         hd (snd (checkUsername wss s ws username draw)) = (ws, UsernameAccepted (trim username)) \<and>
         activeUsersMap (fst (checkUsername wss s ws username draw))
           = map (\<lambda>e. if fst e = ws
                       then (ws, \<lparr>user_id = trim username, user_color = getRandomColor draw\<rparr>)
                       else e) (activeUsersMap s) \<and>
         distinct (map fst (activeUsersMap (fst (checkUsername wss s ws username draw)))) \<and>
         user_id old \<notin> set (user_ids (fst (checkUsername wss s ws username draw))) \<and>
         (\<forall>wss' ws' draw'.
            hd (snd (checkUsername wss' (fst (checkUsername wss s ws username draw)) ws'
                       (user_id old) draw'))
              = (ws', UsernameAccepted (user_id old)))"
proof -
  let ?new = "\<lparr>user_id = trim username, user_color = getRandomColor draw\<rparr>"
  let ?f = "\<lambda>e. if fst e = ws then (ws, ?new) else e"
  let ?r = "checkUsername wss s ws username draw"
  have ok: "registry_ok s" using assms(1) by (rule reachable_registry_ok)
  have keys: "distinct (map fst (activeUsersMap s))"
    using ok by (simp add: registry_ok_entries)
  have "ws \<in> fst ` set (activeUsersMap s)"
    using assms(2) by force
  with keys have set_eq: "Map_set ws ?new (activeUsersMap s) = map ?f (activeUsersMap s)"
    by (rule Map_set_present)
  have r: "?r = (s\<lparr>activeUsersMap := map ?f (activeUsersMap s)\<rparr>,
      (ws, UsernameAccepted (trim username))
        # broadcast wss (UserListUpdate (Map_values (map ?f (activeUsersMap s))))
        @ broadcast wss (LineAttributionUpdate (lineEdits s)))"
    using checkUsername_accepted [OF assms(3,4), of wss ws draw] set_eq by simp
  have old_in: "user_id old \<in> set (user_ids s)"
    using assms(2) by (force simp: set_user_ids)
  have old_ok: "user_id old \<noteq> [] \<and> trim (user_id old) = user_id old"
    using ok assms(2) by (force simp: registry_ok_entries)
  have gone: "user_id old \<notin> set (user_ids (fst ?r))"
  proof
    assume "user_id old \<in> set (user_ids (fst ?r))"
    then obtain e where e: "e \<in> set (activeUsersMap s)" and id: "user_id (snd (?f e)) = user_id old"
      by (auto simp: r set_user_ids)
    show False
    proof (cases "fst e = ws")
      case True
      then have "trim username = user_id old" using id by simp
      with old_in assms(4) show False by simp
    next
      case False
      then have "user_id (snd e) = user_id (snd (ws, old))" using id by simp
      with ok e assms(2) have "e = (ws, old)" by (rule same_identity_same_entry)
      with False show False by simp
    qed
  qed
  have again: "hd (snd (checkUsername wss' (fst ?r) ws' (user_id old) draw'))
      = (ws', UsernameAccepted (user_id old))" for wss' ws' draw'
    using checkUsername_accepted [of "user_id old" "fst ?r" wss' ws' draw'] old_ok gone
    by simp
  have "on_message wss s ws (Parsed (CheckUsername username)) draw = Inr ?r"
    by (simp add: on_message_def)
  moreover have "hd (snd ?r) = (ws, UsernameAccepted (trim username))"
    by (simp add: r)
  moreover have "activeUsersMap (fst ?r) = map ?f (activeUsersMap s)"
    by (simp add: r)
  moreover have "distinct (map fst (activeUsersMap (fst ?r)))"
    using keys by (simp add: checkUsername_accepted [OF assms(3,4)] distinct_Map_set)
  ultimately show ?thesis
    using gone again by blast
qed

text \<open>Connection 1 gives up \<open>alice\<close> for \<open>carol\<close>; connection 2 can then take \<open>alice\<close>.\<close>

theorem rename_accepted_witness:
  "final_state init alice_and_bob = Some named_state \<and>
   (1, \<lparr>user_id = alice, user_color = red\<rparr>) \<in> set (activeUsersMap named_state) \<and>
   trim padded_carol \<noteq> [] \<and>
   trim padded_carol \<notin> set (user_ids named_state) \<and>
   fst (checkUsername two_open named_state 1 padded_carol 2) = renamed_state \<and>
   hd (snd (checkUsername two_open named_state 1 padded_carol 2))
     = (1, UsernameAccepted carol) \<and>
   alice \<notin> set (user_ids renamed_state) \<and>
   hd (snd (checkUsername two_open renamed_state 2 alice 0)) = (2, UsernameAccepted alice)"
proof -
  have reg: "(1, \<lparr>user_id = alice, user_color = red\<rparr>) \<in> set (activeUsersMap named_state)"
    by (simp add: named_state_def)
  have tr: "trim padded_carol = carol"
    by (simp add: trim_defs carol_def padded_carol_def)
  have ne: "trim padded_carol \<noteq> []"
    by (simp add: tr) (simp add: carol_def)
  have fresh: "trim padded_carol \<notin> set (user_ids named_state)"
    by (simp add: tr) (simp add: eval_defs)
  have st: "fst (checkUsername two_open named_state 1 padded_carol 2) = renamed_state"
    by (simp add: checkUsername_accepted [OF ne fresh] tr) (simp add: eval_defs)
  show ?thesis
    using reg ne fresh tr st final_alice_and_bob
      rename_accepted [OF final_alice_and_bob reg ne fresh, of two_open 2]
    by (simp add: alice_def)
qed

text \<open>
  C5, as amended. In a reachable state the \<open>close\<close> handler returns normally. If the connection holds an
  identity, its entry is removed and every other entry kept, the roster broadcast carries
  exactly the remaining participants, the identity is held by no one, and the line
  attribution and the document are untouched. From then on the identity is in no roster that
  is sent, as long as nobody asks for that name again, and the connection has no entry, as
  long as no message arrives over it. If the connection holds no identity, the state is
  unchanged and nothing is sent.
\<close>

theorem close_releases_participant:
  assumes "final_state init es0 = Some s"
  shows "handle s (Close wss ws) = Inr (on_close wss s ws) \<and>
    (\<forall>u. (ws, u) \<in> set (activeUsersMap s) \<longrightarrow>
       activeUsersMap (fst (on_close wss s ws)) = filter (\<lambda>e. fst e \<noteq> ws) (activeUsersMap s) \<and>
       snd (on_close wss s ws)
         = broadcast wss (UserListUpdate (Map_values (filter (\<lambda>e. fst e \<noteq> ws) (activeUsersMap s)))) \<and>
       user_id u \<notin> set (user_ids (fst (on_close wss s ws))) \<and>
       lineEdits (fst (on_close wss s ws)) = lineEdits s \<and>
       sharedDocumentContent (fst (on_close wss s ws)) = sharedDocumentContent s \<and>
       (\<forall>es s'. final_state (fst (on_close wss s ws)) es = Some s' \<and>
            \<not> list_ex (asks_for (user_id u)) es \<longrightarrow>
          user_id u \<notin> set (user_ids s') \<and>
          (\<forall>us \<in> set (rosters (snd (on_close wss s ws) @ sends_of (fst (on_close wss s ws)) es)).
             user_id u \<notin> user_id ` set us)) \<and>
       (\<forall>es s'. final_state (fst (on_close wss s ws)) es = Some s' \<and>
            \<not> list_ex (sent_by ws) es \<longrightarrow>
          ws \<notin> fst ` set (activeUsersMap s'))) \<and>
    (ws \<notin> fst ` set (activeUsersMap s) \<longrightarrow> on_close wss s ws = (s, []))"
proof -
  let ?r = "on_close wss s ws"
  let ?rest = "filter (\<lambda>e. fst e \<noteq> ws) (activeUsersMap s)"
  have ok: "registry_ok s" using assms by (rule reachable_registry_ok)
  have unnamed: "ws \<notin> fst ` set (activeUsersMap s) \<longrightarrow> ?r = (s, [])"
    by (simp add: on_close_cases)
  have named: "activeUsersMap (fst ?r) = ?rest \<and>
       snd ?r = broadcast wss (UserListUpdate (Map_values ?rest)) \<and>
       user_id u \<notin> set (user_ids (fst ?r)) \<and>
       lineEdits (fst ?r) = lineEdits s \<and>
       sharedDocumentContent (fst ?r) = sharedDocumentContent s \<and>
       (\<forall>es s'. final_state (fst ?r) es = Some s' \<and> \<not> list_ex (asks_for (user_id u)) es \<longrightarrow>
          user_id u \<notin> set (user_ids s') \<and>
          (\<forall>us \<in> set (rosters (snd ?r @ sends_of (fst ?r) es)). user_id u \<notin> user_id ` set us)) \<and>
       (\<forall>es s'. final_state (fst ?r) es = Some s' \<and> \<not> list_ex (sent_by ws) es \<longrightarrow>
          ws \<notin> fst ` set (activeUsersMap s'))"
    if reg: "(ws, u) \<in> set (activeUsersMap s)" for u
  proof -
    have "ws \<in> fst ` set (activeUsersMap s)" using reg by force
    then have r: "?r = (s\<lparr>activeUsersMap := ?rest\<rparr>, broadcast wss (UserListUpdate (Map_values ?rest)))"
      by (simp add: on_close_cases)
    have gone: "user_id u \<notin> set (user_ids (fst ?r))"
    proof
      assume "user_id u \<in> set (user_ids (fst ?r))"
      then obtain e where e: "e \<in> set (activeUsersMap s)" and ne: "fst e \<noteq> ws"
        and id: "user_id (snd e) = user_id (snd (ws, u))"
        by (auto simp: r set_user_ids)
      from ok e reg id have "e = (ws, u)" by (rule same_identity_same_entry)
      with ne show False by simp
    qed
    have absent: "ws \<notin> fst ` set (activeUsersMap (fst ?r))"
      by (auto simp: r)
    have now: "user_id u \<notin> user_id ` set us" if "us \<in> set (rosters (snd ?r))" for us
    proof -
      from that have "us = Map_values (activeUsersMap (fst ?r))"
        by (auto simp: r rosters_iff set_broadcast)
      then show ?thesis using gone by (simp add: user_ids_def)
    qed
    have later: "user_id u \<notin> set (user_ids s') \<and>
        (\<forall>us \<in> set (rosters (snd ?r @ sends_of (fst ?r) es)). user_id u \<notin> user_id ` set us)"
      if "final_state (fst ?r) es = Some s'" "\<not> list_ex (asks_for (user_id u)) es" for es s'
    proof -
      have "run (fst ?r) es = Inr (s', sends_of (fst ?r) es)"
        using that(1) by (rule final_and_sends)
      from run_absent_id [OF this gone that(2)] show ?thesis
        using now by (auto simp: rosters_append)
    qed
    have conn: "ws \<notin> fst ` set (activeUsersMap s')"
      if "final_state (fst ?r) es = Some s'" "\<not> list_ex (sent_by ws) es" for es s'
    proof -
      have "run (fst ?r) es = Inr (s', sends_of (fst ?r) es)"
        using that(1) by (rule final_and_sends)
      then show ?thesis using absent that(2) by (rule run_absent_conn)
    qed
    have "activeUsersMap (fst ?r) = ?rest"
      and "snd ?r = broadcast wss (UserListUpdate (Map_values ?rest))"
      and "lineEdits (fst ?r) = lineEdits s"
      and "sharedDocumentContent (fst ?r) = sharedDocumentContent s"
      by (simp_all add: r)
    then show ?thesis using gone later conn by blast
  qed
  have "handle s (Close wss ws) = Inr ?r" by (simp add: handle_def)
  then show ?thesis using named unnamed by blast
qed


text \<open>
  \<open>alice\<close> disconnects after her edit; \<open>bob\<close> gets a roster with himself alone, and the two
  lines stay attributed to \<open>alice\<close>. Connection 3 never had a name.
\<close>

theorem close_releases_participant_witness:
  "final_state init scenario = Some edited_state \<and>
   (1, \<lparr>user_id = alice, user_color = red\<rparr>) \<in> set (activeUsersMap edited_state) \<and>
   on_close [(2, OPEN)] edited_state 1
     = (closed_state, [(2, UserListUpdate [\<lparr>user_id = bob, user_color = sky\<rparr>])]) \<and>
   lineEdits closed_state = lineEdits edited_state \<and>
   final_state closed_state newcomer = Some closed_state \<and>
   \<not> list_ex (asks_for alice) newcomer \<and>
   rosters (sends_of closed_state newcomer)
     = [[\<lparr>user_id = bob, user_color = sky\<rparr>], [\<lparr>user_id = bob, user_color = sky\<rparr>]] \<and>
   alice \<notin> set (user_ids closed_state) \<and>
   3 \<notin> fst ` set (activeUsersMap edited_state) \<and>
   on_close two_open edited_state 3 = (edited_state, [])"
proof -
  have reg: "(1, \<lparr>user_id = alice, user_color = red\<rparr>) \<in> set (activeUsersMap edited_state)"
    by (simp add: edited_state_def)
  have cl: "on_close [(2, OPEN)] edited_state 1
      = (closed_state, [(2, UserListUpdate [\<lparr>user_id = bob, user_color = sky\<rparr>])])"
    by (simp add: eval_defs)
  have le: "lineEdits closed_state = lineEdits edited_state"
    by (simp add: closed_state_def edited_state_def)
  have nw: "final_state closed_state newcomer = Some closed_state"
    by (simp add: eval_defs)
  have na: "\<not> list_ex (asks_for alice) newcomer"
    by (simp add: newcomer_def asks_for_def)
  have ro: "rosters (sends_of closed_state newcomer)
      = [[\<lparr>user_id = bob, user_color = sky\<rparr>], [\<lparr>user_id = bob, user_color = sky\<rparr>]]"
    by (simp add: eval_defs rosters_def)
  have un: "3 \<notin> fst ` set (activeUsersMap edited_state)"
    by (simp add: edited_state_def)
  have "user_id \<lparr>user_id = alice, user_color = red\<rparr>
      \<notin> set (user_ids (fst (on_close [(2, OPEN)] edited_state 1)))"
    using close_releases_participant [OF final_scenario, of "[(2, OPEN)]" 1] reg
    by blast
  then have gone: "alice \<notin> set (user_ids closed_state)"
    unfolding cl by simp
  have un': "on_close two_open edited_state 3 = (edited_state, [])"
    using close_releases_participant [OF final_scenario, of two_open 3] un
    by blast
  show ?thesis
    using final_scenario reg cl le nw na ro un gone un' by blast
qed

text \<open>
  C5, as stated, fails: the name is free once connection 1 has closed, so connection 3 is
  given \<open>alice\<close>, with the same colour as it happens, and the roster sent after that lists
  \<open>alice\<close> again, though nothing has arrived over connection 1.
\<close>

theorem close_then_reclaim_counterexample:
  "final_state init scenario = Some edited_state \<and>
   (1, \<lparr>user_id = alice, user_color = red\<rparr>) \<in> set (activeUsersMap edited_state) \<and>
   on_close [(2, OPEN)] edited_state 1
     = (closed_state, [(2, UserListUpdate [\<lparr>user_id = bob, user_color = sky\<rparr>])]) \<and>
   \<not> list_ex (sent_by 1) reclaim \<and>
   rosters (sends_of closed_state reclaim)
     = [[\<lparr>user_id = bob, user_color = sky\<rparr>, \<lparr>user_id = alice, user_color = red\<rparr>],
        [\<lparr>user_id = bob, user_color = sky\<rparr>, \<lparr>user_id = alice, user_color = red\<rparr>]]"
  by (simp add: eval_defs trim_defs rosters_def sent_by_def)

text \<open>
  C8, as amended. The handler stores whatever integers the clients report, without a check:
  every key of the line attribution, and of every \<open>lineAttributionUpdate\<close> that was sent,
  is an element of the \<open>changedLines\<close> of some \<open>edit\<close> that was handled. The keys are
  therefore at least 0 whenever every reported line number is.
\<close>

theorem lineEdits_keys_reported:
  assumes "final_state init es = Some s"
  shows "dom (lineEdits s) \<subseteq> set (reportedLines es) \<and>
         (\<forall>le \<in> set (snapshots (sends_of init es)). dom le \<subseteq> set (reportedLines es)) \<and>
         (list_all (\<lambda>i. 0 \<le> i) (reportedLines es) \<longrightarrow>
            (\<forall>i \<in> dom (lineEdits s). 0 \<le> i) \<and>
            (\<forall>le \<in> set (snapshots (sends_of init es)). \<forall>i \<in> dom le. 0 \<le> i))"
proof -
  have "run init es = Inr (s, sends_of init es)"
    using assms by (rule final_and_sends)
  from run_lines [OF this]
  have a: "dom (lineEdits s) \<subseteq> set (reportedLines es)"
    and b: "\<forall>le \<in> set (snapshots (sends_of init es)). dom le \<subseteq> set (reportedLines es)"
    by (simp_all add: init_def)
  show ?thesis
    using a b unfolding list_all_iff by blast
qed

text \<open>\<open>alice\<close> reports the lines 0 and 1.\<close>

theorem lineEdits_keys_reported_witness:
  "final_state init scenario = Some edited_state \<and>
   list_all (\<lambda>i. 0 \<le> i) (reportedLines scenario) \<and>
   lineEdits edited_state 1 = Some \<lparr>userId = alice, color = red\<rparr> \<and>
   list_all (\<lambda>i. 0 \<le> i) [i \<leftarrow> [- 2, - 1, 0, 1, 2]. lineEdits edited_state i \<noteq> None] \<and>
   dom (lineEdits edited_state) \<subseteq> set (reportedLines scenario)"
proof -
  have rep: "list_all (\<lambda>i. 0 \<le> i) (reportedLines scenario)"
    by (simp add: reportedLines_def changedLines_of_def scenario_def alice_and_bob_def)
  have look: "lineEdits edited_state 1 = Some \<lparr>userId = alice, color = red\<rparr>"
    "list_all (\<lambda>i. 0 \<le> i) [i \<leftarrow> [- 2, - 1, 0, 1, 2]. lineEdits edited_state i \<noteq> None]"
    by (simp_all add: edited_state_def)
  show ?thesis
    using rep look final_scenario lineEdits_keys_reported [OF final_scenario]
    by blast
qed

text \<open>
  C8, as stated, fails: \<open>alice\<close> reports line \<open>-1\<close>, and \<open>-1\<close> becomes a key of the
  line attribution.
\<close>

theorem negative_line_counterexample:
  "final_state init negative_scenario = Some negative_state \<and>
   lineEdits negative_state (- 1) = Some \<lparr>userId = alice, color = red\<rparr> \<and>
   (- 1 :: int) < 0"
  by (simp add: eval_defs trim_defs)

text \<open>
  C4, as amended. \<open>JSON.parse\<close> throws on a message that is not JSON, and the handler has
  no \<open>try\<close>: the exception leaves the handler before the state is read or written and before
  anything is sent. The program does not drop the message and go on; a run that contains such
  a message ends with the exception.
\<close>

theorem unparseable_throws:
  "on_message wss s ws Unparseable draw = Inl SyntaxError \<and>
   handle s (Message wss ws Unparseable draw) = Inl SyntaxError \<and>
   run s (Message wss ws Unparseable draw # es) = Inl SyntaxError \<and>
   final_state s (Message wss ws Unparseable draw # es) = None \<and>
   sends_of s (Message wss ws Unparseable draw # es) = []"
  by (simp add: on_message_def handle_def final_state_def sends_of_def)

text \<open>Whatever follows the bad message is not handled.\<close>

theorem unparseable_throws_witness:
  "on_message two_open named_state 1 Unparseable 0 = Inl SyntaxError \<and>
   run named_state (Message two_open 1 Unparseable 0 # newcomer) = Inl SyntaxError \<and>
   final_state named_state newcomer = Some named_state"
  using unparseable_throws [of two_open named_state 1 0 newcomer]
  by (simp add: eval_defs)

text \<open>
  C4, as stated, fails: after a message that is not JSON, the request for \<open>alice\<close> over the
  same connection is not served, although it is served when the bad message is left out.
\<close>

theorem unparseable_counterexample:
  "run init garbage_first = Inl SyntaxError \<and>
   final_state init (tl garbage_first)
     = Some \<lparr>sharedDocumentContent = [],
             activeUsersMap = [(1, \<lparr>user_id = alice, user_color = red\<rparr>)],
             lineEdits = Map.empty\<rparr> \<and>
   final_state init garbage_first = None"
  by (simp add: eval_defs trim_defs)

end
